theory Spec2Isabelle
  imports Main "HOL-Library.Word" "HOL-Library.Signed_Division"
begin

section \<open>The document tree consumed by the selectors\<close>

text \<open>
  The selectors of \<^verbatim>\<open>selector.go\<close> read \<^verbatim>\<open>*html.Node\<close> values. The node type
  belongs to the imported \<^verbatim>\<open>html\<close> package; the fields the selectors read are
  \<^verbatim>\<open>Parent\<close> (a nullable pointer), \<^verbatim>\<open>Child\<close> (a slice of node pointers),
  \<^verbatim>\<open>Type\<close>, \<^verbatim>\<open>Data\<close> (the tag name of an element) and \<^verbatim>\<open>Attr\<close> (a slice of
  key/value pairs).

  A pointer is an address, and the store maps every address to the node it holds. The
  selectors compare pointers (\<^verbatim>\<open>c == n\<close>), which is equality of addresses: two distinct
  addresses may hold equal records. The node a selector is applied to and the entries
  of \<^verbatim>\<open>Child\<close> are non-nil pointers; \<^verbatim>\<open>Parent\<close> is \<open>None\<close> for nil. Nothing relates
  \<^verbatim>\<open>Parent\<close> and \<^verbatim>\<open>Child\<close>: a store may hold a node whose parent does not list it, or
  lists it twice. A Go string is a sequence of bytes, as \<^typ>\<open>string\<close> is.
\<close>

datatype NodeType = ErrorNode | TextNode | DocumentNode | ElementNode | CommentNode | DoctypeNode

record Attribute =
  Key :: string
  Val :: string

type_synonym addr = nat

record Node =
  Parent :: "addr option"
  Child :: "addr list"
  Type :: NodeType
  Data :: string
  Attr :: "Attribute list"

type_synonym store = "addr \<Rightarrow> Node"

text \<open>
  \<^verbatim>\<open>type Selector func(*html.Node) bool\<close>. The function reads the tree through the
  pointer, so the model passes the store along with the address.
\<close>

type_synonym Selector = "store \<Rightarrow> addr \<Rightarrow> bool"

section \<open>Case folding\<close>

text \<open>
  \<^verbatim>\<open>toLowerASCII\<close> walks the bytes of \<^verbatim>\<open>s\<close> with an index. The buffer \<^verbatim>\<open>b\<close> is nil
  (\<open>None\<close>) until the first capital letter is met; it is then a copy of \<^verbatim>\<open>s\<close>, and the
  byte at the index is overwritten with the letter plus \<^verbatim>\<open>'a' - 'A'\<close>, a byte addition.
\<close>

definition isUpperASCII :: "char \<Rightarrow> bool" where
  "isUpperASCII c =
     ((of_char CHR ''A'' :: nat) \<le> of_char c \<and> (of_char c :: nat) \<le> of_char CHR ''Z'')"

function toLowerASCII_loop :: "string \<Rightarrow> nat \<Rightarrow> string option \<Rightarrow> string option" where
  "toLowerASCII_loop s i b =
     (if i < length s then
        (if isUpperASCII (s ! i) then
           (let b' = (case b of None \<Rightarrow> s | Some b0 \<Rightarrow> b0)
            in toLowerASCII_loop s (i + 1)
                 (Some (b'[i := char_of ((of_char (s ! i) :: nat)
                                   + (of_char CHR ''a'' - of_char CHR ''A''))])))
         else toLowerASCII_loop s (i + 1) b)
      else b)"
  by pat_completeness auto
termination
  by (relation "measure (\<lambda>(s, i, b). length s - i)") auto

declare toLowerASCII_loop.simps [simp del]

definition toLowerASCII :: "string \<Rightarrow> string" where
  "toLowerASCII s = (case toLowerASCII_loop s 0 None of None \<Rightarrow> s | Some b \<Rightarrow> b)"

section \<open>Type and attribute selectors\<close>

definition typeSelector :: "string \<Rightarrow> Selector" where
  "typeSelector tag =
     (let tag = toLowerASCII tag
      in (\<lambda>h n. Type (h n) = ElementNode \<and> Data (h n) = tag))"

text \<open>
  The loop of \<^verbatim>\<open>attributeSelector\<close> over \<^verbatim>\<open>n.Attr\<close>: it returns true at the first
  attribute with the key whose value satisfies \<^verbatim>\<open>f\<close>, and false after the last one.
\<close>

fun attributeSelector_loop :: "string \<Rightarrow> (string \<Rightarrow> bool) \<Rightarrow> Attribute list \<Rightarrow> bool" where
  "attributeSelector_loop key f [] = False"
| "attributeSelector_loop key f (a # as) =
     (if Key a = key \<and> f (Val a) then True else attributeSelector_loop key f as)"

definition attributeSelector :: "string \<Rightarrow> (string \<Rightarrow> bool) \<Rightarrow> Selector" where
  "attributeSelector key f =
     (let key = toLowerASCII key
      in (\<lambda>h n. if Type (h n) \<noteq> ElementNode then False
                 else attributeSelector_loop key f (Attr (h n))))"

definition attributeExistsSelector :: "string \<Rightarrow> Selector" where
  "attributeExistsSelector key = attributeSelector key (\<lambda>s. True)"

definition attributeEqualsSelector :: "string \<Rightarrow> string \<Rightarrow> Selector" where
  "attributeEqualsSelector key val = attributeSelector key (\<lambda>s. s = val)"

text \<open>
  \<^verbatim>\<open>strings.IndexAny(s, chars)\<close> of Go's standard library: the index of the first byte
  of \<^verbatim>\<open>s\<close> that is one of \<^verbatim>\<open>chars\<close>, or \<open>-1\<close> when there is none. The selectors call
  it with ASCII separators only, for which the first code point found and the first
  byte found are the same position.
\<close>

fun IndexAny :: "string \<Rightarrow> string \<Rightarrow> int" where
  "IndexAny [] chars = - 1"
| "IndexAny (c # s) chars =
     (if c \<in> set chars then 0
      else (let i = IndexAny s chars in if i = - 1 then - 1 else i + 1))"

text \<open>The separators \<^verbatim>\<open>" \t\r\n\f"\<close>: space, tab, carriage return, line feed, form feed.\<close>

definition separators :: string where
  "separators = [CHR '' '', CHR 0x09, CHR 0x0D, CHR 0x0A, CHR 0x0C]"

lemma IndexAny_range: "- 1 \<le> IndexAny s chars \<and> IndexAny s chars < int (length s)"
  by (induction s) (auto simp: Let_def)

text \<open>
  The predicate of \<^verbatim>\<open>attributeIncludesSelector\<close>: a \<^verbatim>\<open>for s != ""\<close> loop that cuts
  \<^verbatim>\<open>s\<close> after each separator (\<^verbatim>\<open>s[:i]\<close> is \<open>take\<close>, \<^verbatim>\<open>s[i+1:]\<close> is \<open>drop\<close>; both
  indices are within the string).
\<close>

function includes_loop :: "string \<Rightarrow> string \<Rightarrow> bool" where
  "includes_loop val s =
     (if s \<noteq> [] then
        (let i = IndexAny s separators
         in if i = - 1 then s = val
            else if take (nat i) s = val then True
            else includes_loop val (drop (nat (i + 1)) s))
      else False)"
  by pat_completeness auto
termination
proof (relation "measure (\<lambda>(val, s). length s)")
  show "wf (measure (\<lambda>(val, s). length s))" by simp
next
  fix val s :: string and i :: int
  assume "s \<noteq> []" and "i = IndexAny s separators" and "i \<noteq> - 1"
  then show "((val, drop (nat (i + 1)) s), (val, s)) \<in> measure (\<lambda>(val, s). length s)"
    using IndexAny_range [of s separators] by simp
qed

declare includes_loop.simps [simp del]

definition attributeIncludesSelector :: "string \<Rightarrow> string \<Rightarrow> Selector" where
  "attributeIncludesSelector key val = attributeSelector key (includes_loop val)"

text \<open>
  The predicate of \<^verbatim>\<open>attributeDashmatchSelector\<close>. The byte \<^verbatim>\<open>s[len(val)]\<close> is read
  only after \<^verbatim>\<open>len(s) <= len(val)\<close> has been excluded.
\<close>

definition dashmatch :: "string \<Rightarrow> string \<Rightarrow> bool" where
  "dashmatch val s =
     (if s = val then True
      else if length s \<le> length val then False
      else if take (length val) s = val \<and> s ! (length val) = CHR ''-'' then True
      else False)"

definition attributeDashmatchSelector :: "string \<Rightarrow> string \<Rightarrow> Selector" where
  "attributeDashmatchSelector key val = attributeSelector key (dashmatch val)"

section \<open>Negation and intersection\<close>

definition intersectionSelector :: "Selector \<Rightarrow> Selector \<Rightarrow> Selector" where
  "intersectionSelector a b = (\<lambda>h n. a h n \<and> b h n)"

definition negatedSelector :: "Selector \<Rightarrow> Selector" where
  "negatedSelector a = (\<lambda>h n. \<not> a h n)"

section \<open>Structural selectors\<close>

text \<open>
  Go's \<^verbatim>\<open>int\<close> is taken as the 64-bit two's complement integer of the usual
  platforms: \<open>+\<close> and \<open>-\<close> wrap around, comparisons are signed. \<^verbatim>\<open>x / y\<close> truncates
  towards zero and \<^verbatim>\<open>x % y\<close> takes the sign of \<open>x\<close>; the one quotient out of range,
  that of the most negative integer by \<open>-1\<close>, wraps around to the most negative integer.
  Both panic when \<open>y\<close> is zero: \<^verbatim>\<open>nthChildSelector\<close> divides only after \<^verbatim>\<open>a == 0\<close> has
  returned.
\<close>

type_synonym go_int = "64 word"

definition go_div :: "go_int \<Rightarrow> go_int \<Rightarrow> go_int" where
  "go_div x y = word_of_int (sint x sdiv sint y)"

definition go_mod :: "go_int \<Rightarrow> go_int \<Rightarrow> go_int" where
  "go_mod x y = word_of_int (sint x smod sint y)"

text \<open>
  The loop of \<^verbatim>\<open>nthChildSelector\<close> over \<^verbatim>\<open>parent.Child\<close>, with its variables \<^verbatim>\<open>i\<close>
  and \<^verbatim>\<open>count\<close> as they stand when the loop is left: a child that is no element, or
  (for \<^verbatim>\<open>ofType\<close>) has another name than \<^verbatim>\<open>n\<close>, is skipped; \<^verbatim>\<open>c == n\<close> compares
  pointers; the \<^verbatim>\<open>break\<close> leaves the loop when \<^verbatim>\<open>last\<close> is false (\<open>last'\<close> here, \<open>last\<close> being a
  function on lists).
\<close>

fun nthChildSelector_loop ::
  "bool \<Rightarrow> bool \<Rightarrow> store \<Rightarrow> addr \<Rightarrow> addr list \<Rightarrow> go_int \<Rightarrow> go_int \<Rightarrow> go_int \<times> go_int" where
  "nthChildSelector_loop last' ofType h n [] i count = (i, count)"
| "nthChildSelector_loop last' ofType h n (c # cs) i count =
     (if Type (h c) \<noteq> ElementNode \<or> (ofType \<and> Data (h c) \<noteq> Data (h n))
      then nthChildSelector_loop last' ofType h n cs i count
      else (let count = count + 1
            in if c = n
               then (let i = count
                     in if \<not> last' then (i, count)
                        else nthChildSelector_loop last' ofType h n cs i count)
               else nthChildSelector_loop last' ofType h n cs i count))"

definition nthChildSelector :: "go_int \<Rightarrow> go_int \<Rightarrow> bool \<Rightarrow> bool \<Rightarrow> Selector" where
  "nthChildSelector a b last' ofType =
     (\<lambda>h n.
        if Type (h n) \<noteq> ElementNode then False
        else (case Parent (h n) of
                None \<Rightarrow> False
              | Some parent \<Rightarrow>
                  (case nthChildSelector_loop last' ofType h n (Child (h parent)) (- 1) 0 of
                     (i, count) \<Rightarrow>
                       if i = - 1 then False
                       else (let i = (if last' then count - i + 1 else i);
                                 i = i - b
                             in if a = 0 then i = 0
                                else go_mod i a = 0 \<and> 0 \<le>s go_div i a))))"

text \<open>
  The loop of \<^verbatim>\<open>onlyChildSelector\<close>: \<open>None\<close> is the \<^verbatim>\<open>return false\<close> from inside
  the loop, \<open>Some count\<close> the count when the loop has run through.
\<close>

fun onlyChildSelector_loop ::
  "bool \<Rightarrow> store \<Rightarrow> addr \<Rightarrow> addr list \<Rightarrow> go_int \<Rightarrow> go_int option" where
  "onlyChildSelector_loop ofType h n [] count = Some count"
| "onlyChildSelector_loop ofType h n (c # cs) count =
     (if Type (h c) \<noteq> ElementNode \<or> (ofType \<and> Data (h c) \<noteq> Data (h n))
      then onlyChildSelector_loop ofType h n cs count
      else (let count = count + 1
            in if 1 <s count then None
               else onlyChildSelector_loop ofType h n cs count))"

definition onlyChildSelector :: "bool \<Rightarrow> Selector" where
  "onlyChildSelector ofType =
     (\<lambda>h n.
        if Type (h n) \<noteq> ElementNode then False
        else (case Parent (h n) of
                None \<Rightarrow> False
              | Some parent \<Rightarrow>
                  (case onlyChildSelector_loop ofType h n (Child (h parent)) 0 of
                     None \<Rightarrow> False
                   | Some count \<Rightarrow> count = 1)))"

section \<open>Compile and MatchAll\<close>

text \<open>
  \<^verbatim>\<open>Compile\<close> builds a \<^verbatim>\<open>parser\<close> on the selector text, with the cursor \<^verbatim>\<open>i\<close> at 0,
  and calls its method \<^verbatim>\<open>parseSimpleSelectorSequence\<close>. The parser is no part of
  \<^verbatim>\<open>selector.go\<close>: the method is a parameter here. It returns Go's pair of a selector
  and an error, either of which may be nil (\<open>None\<close>), and the parser with the cursor
  where the parse has left it. \<open>'e\<close> is the type of the parser's errors.

  \<^verbatim>\<open>Compile\<close> returns such a pair too. An error of the parser is handed on as it is
  (\<open>ParseError\<close>). Its own error,
  \<^verbatim>\<open>fmt.Errorf("parsing %q: %d bytes left over", sel, len(sel)-p.i)\<close>, is kept as the
  two values the message is formatted from (\<open>BytesLeftOver\<close>).
\<close>

record parser =
  parser_s :: string
  parser_i :: go_int

datatype 'e compile_error = ParseError 'e | BytesLeftOver string go_int

type_synonym 'e parse_method = "parser \<Rightarrow> (Selector option \<times> 'e option) \<times> parser"

definition Compile :: "'e parse_method \<Rightarrow> string \<Rightarrow> Selector option \<times> 'e compile_error option" where
  "Compile parseSimpleSelectorSequence sel =
     (let p = \<lparr>parser_s = sel, parser_i = 0\<rparr>
      in case parseSimpleSelectorSequence p of
           ((compiled, err), p) \<Rightarrow>
             (case err of
                Some e \<Rightarrow> (None, Some (ParseError e))
              | None \<Rightarrow>
                  if parser_i p <s word_of_nat (length sel)
                  then (None, Some (BytesLeftOver sel (word_of_nat (length sel) - parser_i p)))
                  else (compiled, None)))"

text \<open>
  \<^verbatim>\<open>MatchAll\<close> calls itself on every child. The recursion of the Go function ends on
  a finite tree only, so the model counts the depth of the calls: \<open>MatchAll k\<close> is
  \<open>None\<close> when a call chain longer than \<open>k\<close> would be needed, as it is for every \<open>k\<close>
  on a node that is its own descendant. \<open>MatchAll_loop\<close> is the loop over
  \<^verbatim>\<open>n.Child\<close>, appending to \<^verbatim>\<open>result\<close>.
\<close>

fun MatchAll :: "nat \<Rightarrow> Selector \<Rightarrow> store \<Rightarrow> addr \<Rightarrow> addr list option"
  and MatchAll_loop :: "nat \<Rightarrow> Selector \<Rightarrow> store \<Rightarrow> addr list \<Rightarrow> addr list \<Rightarrow> addr list option" where
  "MatchAll 0 s h n = None"
| "MatchAll (Suc k) s h n = MatchAll_loop k s h (Child (h n)) (if s h n then [n] else [])"
| "MatchAll_loop k s h [] result = Some result"
| "MatchAll_loop k s h (c # cs) result =
     (case MatchAll k s h c of
        None \<Rightarrow> None
      | Some r \<Rightarrow> MatchAll_loop k s h cs (result @ r))"

section \<open>Notions of the specification\<close>

text \<open>
  The specification speaks of ASCII lowercasing, of comparing keys without regard to
  ASCII case and of splitting a value on separator characters. These definitions follow
  its words; the theorems below relate the code to them.
\<close>

text \<open>Each letter \<^verbatim>\<open>A\<close> to \<^verbatim>\<open>Z\<close> is replaced by its lowercase counterpart.\<close>

definition lowerASCII :: "char \<Rightarrow> char" where
  "lowerASCII c = (if isUpperASCII c then char_of ((of_char c :: nat) + 32) else c)"

definition equalFoldASCII :: "string \<Rightarrow> string \<Rightarrow> bool" where
  "equalFoldASCII s t = (map lowerASCII s = map lowerASCII t)"

text \<open>
  \<open>splitOn seps s\<close> cuts \<open>s\<close> at every separator and keeps every field, the empty ones
  too (as Go's \<^verbatim>\<open>strings.Split\<close> does for one separator); \<open>tokens seps s\<close> are the
  non-empty fields, the maximal runs without a separator (as \<^verbatim>\<open>strings.FieldsFunc\<close>).
\<close>

fun splitOn :: "string \<Rightarrow> string \<Rightarrow> string list" where
  "splitOn seps [] = [[]]"
| "splitOn seps (c # s) =
     (if c \<in> set seps then [] # splitOn seps s
      else (case splitOn seps s of [] \<Rightarrow> [[c]] | w # ws \<Rightarrow> (c # w) # ws))"

definition tokens :: "string \<Rightarrow> string \<Rightarrow> string list" where
  "tokens seps s = filter (\<lambda>w. w \<noteq> []) (splitOn seps s)"

text \<open>
  The children that the structural selectors count for a node \<open>n\<close>: the element
  children of the parent, and only those with the name of \<open>n\<close> when \<open>ofType\<close> is set.
  \<open>position x xs\<close> is the 1-based position of \<open>x\<close> in \<open>xs\<close> (of its first occurrence),
  \<open>nthIndex\<close> the position of \<open>n\<close> among these children, mirrored to
  \<open>count - i + 1\<close> when \<open>last\<close> is set.
\<close>

definition keeps :: "bool \<Rightarrow> store \<Rightarrow> addr \<Rightarrow> addr \<Rightarrow> bool" where
  "keeps ofType h n c = (Type (h c) = ElementNode \<and> (ofType \<longrightarrow> Data (h c) = Data (h n)))"

definition siblings :: "bool \<Rightarrow> store \<Rightarrow> addr \<Rightarrow> addr \<Rightarrow> addr list" where
  "siblings ofType h n p = filter (keeps ofType h n) (Child (h p))"

fun position :: "'a \<Rightarrow> 'a list \<Rightarrow> nat option" where
  "position x [] = None"
| "position x (y # ys) = (if y = x then Some 1 else map_option Suc (position x ys))"

definition nthIndex :: "bool \<Rightarrow> bool \<Rightarrow> store \<Rightarrow> addr \<Rightarrow> addr \<Rightarrow> nat option" where
  "nthIndex last' ofType h n p =
     (case position n (siblings ofType h n p) of
        None \<Rightarrow> None
      | Some i \<Rightarrow> Some (if last' then length (siblings ofType h n p) - i + 1 else i))"

text \<open>
  The match rule on a position \<open>i\<close>, in Go's arithmetic: with \<open>j = i - b\<close>, \<open>j == 0\<close>
  when \<open>a == 0\<close>, and otherwise \<open>j % a == 0\<close> and \<open>j / a >= 0\<close>.
\<close>

definition nthRule :: "go_int \<Rightarrow> go_int \<Rightarrow> nat \<Rightarrow> bool" where
  "nthRule a b i =
     (let j = word_of_nat i - b
      in if a = 0 then j = 0 else go_mod j a = 0 \<and> 0 \<le>s go_div j a)"

text \<open>
  A tree lists a node once among the children of its parent, and the length of a Go
  slice is an \<^verbatim>\<open>int\<close>.
\<close>

definition listedOnce :: "store \<Rightarrow> addr \<Rightarrow> bool" where
  "listedOnce h n =
     (case Parent (h n) of None \<Rightarrow> True | Some p \<Rightarrow> count_list (Child (h p)) n \<le> 1)"

definition childrenFit :: "store \<Rightarrow> addr \<Rightarrow> bool" where
  "childrenFit h n =
     (case Parent (h n) of None \<Rightarrow> True | Some p \<Rightarrow> length (Child (h p)) < 2 ^ 63)"

text \<open>
  The naive variant of \<^verbatim>\<open>nthChildSelector\<close> for \<^verbatim>\<open>last == false\<close>: the same loop
  without the \<^verbatim>\<open>break\<close>, so that every child is scanned and \<^verbatim>\<open>count\<close> is the full
  count, and the same test after it.
\<close>

fun naive_loop :: "bool \<Rightarrow> store \<Rightarrow> addr \<Rightarrow> addr list \<Rightarrow> go_int \<Rightarrow> go_int \<Rightarrow> go_int \<times> go_int" where
  "naive_loop ofType h n [] i count = (i, count)"
| "naive_loop ofType h n (c # cs) i count =
     (if Type (h c) \<noteq> ElementNode \<or> (ofType \<and> Data (h c) \<noteq> Data (h n))
      then naive_loop ofType h n cs i count
      else (let count = count + 1
            in if c = n then (let i = count in naive_loop ofType h n cs i count)
               else naive_loop ofType h n cs i count))"

definition nthChildSelector_naive :: "go_int \<Rightarrow> go_int \<Rightarrow> bool \<Rightarrow> Selector" where
  "nthChildSelector_naive a b ofType =
     (\<lambda>h n.
        if Type (h n) \<noteq> ElementNode then False
        else (case Parent (h n) of
                None \<Rightarrow> False
              | Some parent \<Rightarrow>
                  (case naive_loop ofType h n (Child (h parent)) (- 1) 0 of
                     (i, count) \<Rightarrow>
                       if i = - 1 then False
                       else (let i = i - b
                             in if a = 0 then i = 0
                                else go_mod i a = 0 \<and> 0 \<le>s go_div i a))))"

text \<open>
  A finite tree is a node all of whose children are roots of finite trees; the
  descendants of a node are its children and their descendants. \<open>returns s h n r\<close>
  says that \<open>MatchAll\<close> on \<open>n\<close> returns \<open>r\<close>: at some depth of the calls, and then at
  every greater one. \<open>precedes r m d\<close> says that \<open>r\<close> holds \<open>m\<close> at a place before \<open>d\<close>.
\<close>

inductive finiteTree :: "store \<Rightarrow> addr \<Rightarrow> bool" for h :: store where
  node: "(\<And>c. c \<in> set (Child (h n)) \<Longrightarrow> finiteTree h c) \<Longrightarrow> finiteTree h n"

inductive_set descendants :: "store \<Rightarrow> addr \<Rightarrow> addr set" for h :: store and n :: addr where
  child: "c \<in> set (Child (h n)) \<Longrightarrow> c \<in> descendants h n"
| below: "m \<in> descendants h n \<Longrightarrow> c \<in> set (Child (h m)) \<Longrightarrow> c \<in> descendants h n"

definition returns :: "Selector \<Rightarrow> store \<Rightarrow> addr \<Rightarrow> addr list \<Rightarrow> bool" where
  "returns s h n r = (\<exists>k. \<forall>k'\<ge>k. MatchAll k' s h n = Some r)"

definition precedes :: "addr list \<Rightarrow> addr \<Rightarrow> addr \<Rightarrow> bool" where
  "precedes r m d = (\<exists>xs ys zs. r = xs @ m # ys @ d # zs)"

section \<open>Examples\<close>

definition blank :: Node where
  "blank = \<lparr>Parent = None, Child = [], Type = TextNode, Data = [], Attr = []\<rparr>"

definition emptyStore :: store where
  "emptyStore a = blank"

definition element :: "addr option \<Rightarrow> addr list \<Rightarrow> string \<Rightarrow> Attribute list \<Rightarrow> Node" where
  "element p cs tag as = \<lparr>Parent = p, Child = cs, Type = ElementNode, Data = tag, Attr = as\<rparr>"

text \<open>
  Node 0 is an element with three attributes, two of them sharing the key \<^verbatim>\<open>class\<close>;
  nodes 1 and 2 are elements with one attribute; node 3 is a text node.
\<close>

definition attrStore :: store where
  "attrStore = emptyStore
     (0 := element None [] ''p''
        [\<lparr>Key = ''lang'', Val = ''en-US''\<rparr>, \<lparr>Key = ''class'', Val = ''a b c''\<rparr>,
         \<lparr>Key = ''class'', Val = ''d''\<rparr>],
      1 := element None [] ''p'' [\<lparr>Key = ''lang'', Val = ''en''\<rparr>],
      2 := element None [] ''p'' [\<lparr>Key = ''lang'', Val = ''english''\<rparr>],
      3 := blank \<lparr>Attr := [\<lparr>Key = ''lang'', Val = ''en''\<rparr>]\<rparr>)"

text \<open>An element whose attribute key holds capital letters, as a tree may store it.\<close>

definition upperKeyStore :: store where
  "upperKeyStore = emptyStore (0 := element None [] ''svg'' [\<lparr>Key = ''ID'', Val = ''x''\<rparr>])"

text \<open>Elements whose \<^verbatim>\<open>class\<close> value starts, and ends, with a separator.\<close>

definition leadingStore :: store where
  "leadingStore = emptyStore (0 := element None [] ''p'' [\<lparr>Key = ''class'', Val = '' a''\<rparr>])"

definition trailingStore :: store where
  "trailingStore = emptyStore (0 := element None [] ''p'' [\<lparr>Key = ''class'', Val = ''a ''\<rparr>])"

text \<open>
  A list of seven children under node 0, five of them elements (1, 3, 4, 5 and 7;
  2 is a text node and 6 a comment); node 10 names 0 as its parent and is not among
  the children of 0; node 20 is the one element child of node 21, beside a text node.
\<close>

definition familyStore :: store where
  "familyStore = emptyStore
     (0 := element None [1, 2, 3, 4, 5, 6, 7] ''ul'' [],
      1 := element (Some 0) [] ''li'' [],
      2 := blank \<lparr>Parent := Some 0\<rparr>,
      3 := element (Some 0) [] ''li'' [],
      4 := element (Some 0) [] ''p'' [],
      5 := element (Some 0) [] ''li'' [],
      6 := blank \<lparr>Parent := Some 0, Type := CommentNode\<rparr>,
      7 := element (Some 0) [] ''li'' [],
      10 := element (Some 0) [] ''li'' [],
      20 := element (Some 21) [] ''b'' [],
      21 := element None [22, 20] ''p'' [],
      22 := blank \<lparr>Parent := Some 21\<rparr>)"

text \<open>A parent that lists the same child twice, which no tree does.\<close>

definition twiceStore :: store where
  "twiceStore = emptyStore
     (0 := element None [1, 1] ''ul'' [],
      1 := element (Some 0) [] ''li'' [])"

text \<open>
  A parse method for the examples: it reads the lowercase letters at the cursor as a
  tag name, and fails when there is none.
\<close>

definition isLowerASCII :: "char \<Rightarrow> bool" where
  "isLowerASCII c =
     ((of_char CHR ''a'' :: nat) \<le> of_char c \<and> (of_char c :: nat) \<le> of_char CHR ''z'')"

definition nameParser :: "unit parse_method" where
  "nameParser p =
     (let name = takeWhile isLowerASCII (drop (unat (parser_i p)) (parser_s p))
      in if name = [] then ((None, Some ()), p)
         else ((Some (typeSelector name), None),
               p\<lparr>parser_i := parser_i p + word_of_nat (length name)\<rparr>))"

text \<open>A \<^verbatim>\<open>div\<close> with two children, a \<^verbatim>\<open>span\<close> that holds a \<^verbatim>\<open>div\<close>, and a \<^verbatim>\<open>div\<close>.\<close>

definition divStore :: store where
  "divStore = emptyStore
     (0 := element None [1, 2] ''div'' [],
      1 := element (Some 0) [3] ''span'' [],
      2 := element (Some 0) [] ''div'' [],
      3 := element (Some 1) [] ''div'' [])"

section \<open>Case folding and attribute values\<close>

lemma toLowerASCII_loop_inv:
  "i \<le> length s \<Longrightarrow>
   (case b of None \<Rightarrow> s | Some b0 \<Rightarrow> b0) = map lowerASCII (take i s) @ drop i s \<Longrightarrow>
   (case toLowerASCII_loop s i b of None \<Rightarrow> s | Some b0 \<Rightarrow> b0) = map lowerASCII s"
proof (induction s i b rule: toLowerASCII_loop.induct)
  case (1 s i b)
  show ?case
  proof (cases "i < length s")
    case False
    then have "toLowerASCII_loop s i b = b"
      by (simp add: toLowerASCII_loop.simps [of s i b])
    with False "1.prems" show ?thesis by simp
  next
    case True
    let ?cur = "(case b of None \<Rightarrow> s | Some b0 \<Rightarrow> b0)"
    have step: "take (Suc i) s = take i s @ [s ! i]"
      using True by (simp add: take_Suc_conv_app_nth)
    have len: "length (map lowerASCII (take i s)) = i" using True by simp
    show ?thesis
    proof (cases "isUpperASCII (s ! i)")
      case up: True
      have "?cur[i := lowerASCII (s ! i)] = map lowerASCII (take (Suc i) s) @ drop (Suc i) s"
        using "1.prems"(2) True len
        by (simp add: step list_update_append Cons_nth_drop_Suc [symmetric])
      then have "(case Some (?cur[i := char_of ((of_char (s ! i) :: nat) + (of_char CHR ''a'' - of_char CHR ''A''))]) of None \<Rightarrow> s | Some b0 \<Rightarrow> b0)
          = map lowerASCII (take (i + 1) s) @ drop (i + 1) s"
        using up by (simp add: lowerASCII_def)
      from "1.IH"(1) [OF True up refl _ this] True up show ?thesis
        by (simp add: Let_def toLowerASCII_loop.simps [of s i b])
    next
      case low: False
      have "?cur = map lowerASCII (take (i + 1) s) @ drop (i + 1) s"
        using "1.prems"(2) True low
        by (simp add: step lowerASCII_def Cons_nth_drop_Suc)
      from "1.IH"(2) [OF True low _ this] True low show ?thesis
        by (simp add: toLowerASCII_loop.simps [of s i b])
    qed
  qed
qed

lemma toLowerASCII_map: "toLowerASCII s = map lowerASCII s"
  using toLowerASCII_loop_inv [of 0 s None] by (simp add: toLowerASCII_def)

lemma attributeSelector_loop_iff:
  "attributeSelector_loop key f as \<longleftrightarrow> (\<exists>a \<in> set as. Key a = key \<and> f (Val a))"
  by (induction as) auto

lemma splitOn_nonempty: "splitOn seps s \<noteq> []"
  by (induction s) (auto split: list.splits)

lemma splitOn_free: "set p \<inter> set seps = {} \<Longrightarrow> splitOn seps p = [p]"
  by (induction p) auto

lemma splitOn_cut:
  "set p \<inter> set seps = {} \<Longrightarrow> c \<in> set seps \<Longrightarrow> splitOn seps (p @ c # r) = p # splitOn seps r"
  by (induction p) auto

lemma IndexAny_none: "IndexAny s chars = - 1 \<longleftrightarrow> set s \<inter> set chars = {}"
proof (induction s)
  case Nil
  show ?case by simp
next
  case (Cons c s)
  have "- 1 \<le> IndexAny s chars" using IndexAny_range [of s chars] by simp
  with Cons show ?case by (cases "c \<in> set chars") (auto simp: Let_def)
qed

lemma IndexAny_cut:
  "IndexAny s chars \<noteq> - 1 \<Longrightarrow>
   \<exists>c. c \<in> set chars \<and> set (take (nat (IndexAny s chars)) s) \<inter> set chars = {}
     \<and> s = take (nat (IndexAny s chars)) s @ c # drop (nat (IndexAny s chars + 1)) s"
proof (induction s)
  case Nil
  then show ?case by simp
next
  case (Cons a s)
  show ?case
  proof (cases "a \<in> set chars")
    case True
    then show ?thesis by auto
  next
    case False
    with Cons.prems have ne: "IndexAny s chars \<noteq> - 1" by (auto simp: Let_def split: if_splits)
    have ge: "0 \<le> IndexAny s chars" using IndexAny_range [of s chars] ne by simp
    from Cons.IH [OF ne] obtain c where c: "c \<in> set chars"
      "set (take (nat (IndexAny s chars)) s) \<inter> set chars = {}"
      "s = take (nat (IndexAny s chars)) s @ c # drop (nat (IndexAny s chars + 1)) s"
      by blast
    have idx: "IndexAny (a # s) chars = IndexAny s chars + 1"
      using False ne by (simp add: Let_def)
    have n1: "nat (IndexAny s chars + 1) = Suc (nat (IndexAny s chars))"
      using ge by simp
    have n2: "nat (IndexAny s chars + 1 + 1) = Suc (nat (IndexAny s chars + 1))"
      using ge by simp
    show ?thesis
      unfolding idx n2
      apply (rule exI [of _ c])
      using c False unfolding n1 by auto
  qed
qed

lemma includes_loop_splitOn:
  "val \<noteq> [] \<Longrightarrow> includes_loop val s \<longleftrightarrow> val \<in> set (splitOn separators s)"
proof (induction val s rule: includes_loop.induct)
  case (1 val s)
  show ?case
  proof (cases "s = []")
    case True
    with "1.prems" show ?thesis by (auto simp: includes_loop.simps [of val "[]"])
  next
    case ne: False
    show ?thesis
    proof (cases "IndexAny s separators = - 1")
      case True
      then have "splitOn separators s = [s]"
        by (simp add: IndexAny_none splitOn_free)
      with True ne show ?thesis by (auto simp: includes_loop.simps [of val s])
    next
      case False
      let ?i = "IndexAny s separators"
      from IndexAny_cut [OF False] obtain c where c: "c \<in> set separators"
        "set (take (nat ?i) s) \<inter> set separators = {}"
        "s = take (nat ?i) s @ c # drop (nat (?i + 1)) s"
        by blast
      have sp: "splitOn separators s = take (nat ?i) s # splitOn separators (drop (nat (?i + 1)) s)"
        using splitOn_cut [OF c(2) c(1), of "drop (nat (?i + 1)) s"] c(3) by simp
      show ?thesis
      proof (cases "take (nat ?i) s = val")
        case True
        with ne False sp show ?thesis by (simp add: includes_loop.simps [of val s])
      next
        case nt: False
        have "includes_loop val s = includes_loop val (drop (nat (?i + 1)) s)"
          using ne False nt by (simp add: includes_loop.simps [of val s] Let_def)
        also have "\<dots> \<longleftrightarrow> val \<in> set (splitOn separators (drop (nat (?i + 1)) s))"
          using "1.IH" [OF ne refl False nt "1.prems"] .
        also have "\<dots> \<longleftrightarrow> val \<in> set (splitOn separators s)"
          using sp nt by auto
        finally show ?thesis .
      qed
    qed
  qed
qed

lemma dashmatch_iff:
  "dashmatch val s \<longleftrightarrow> s = val \<or> (\<exists>r. s = val @ CHR ''-'' # r)"
proof -
  have "(length val < length s \<and> take (length val) s = val \<and> s ! (length val) = CHR ''-'')
        \<longleftrightarrow> (\<exists>r. s = val @ CHR ''-'' # r)"
  proof
    assume a: "length val < length s \<and> take (length val) s = val \<and> s ! (length val) = CHR ''-''"
    then have "s = take (length val) s @ s ! (length val) # drop (Suc (length val)) s"
      using id_take_nth_drop [of "length val" s] by simp
    with a have "s = val @ CHR ''-'' # drop (Suc (length val)) s" by simp
    then show "\<exists>r. s = val @ CHR ''-'' # r" ..
  next
    assume "\<exists>r. s = val @ CHR ''-'' # r"
    then show "length val < length s \<and> take (length val) s = val \<and> s ! (length val) = CHR ''-''"
      by auto
  qed
  then show ?thesis by (auto simp: dashmatch_def)
qed

section \<open>The loops of the structural selectors\<close>

lemma only_step:
  "onlyChildSelector_loop ofType h n (c # cs) count =
     (if \<not> keeps ofType h n c then onlyChildSelector_loop ofType h n cs count
      else if 1 <s count + 1 then None
      else onlyChildSelector_loop ofType h n cs (count + 1))"
  by (simp add: keeps_def Let_def)

lemma onlyChild_loop_1:
  "onlyChildSelector_loop ofType h n cs 1 =
     (if filter (keeps ofType h n) cs = [] then Some 1 else None)"
  by (induction cs) (simp_all add: only_step word_sless_alt del: onlyChildSelector_loop.simps(2))

lemma onlyChild_loop_0:
  "onlyChildSelector_loop ofType h n cs 0 =
     (case filter (keeps ofType h n) cs of [] \<Rightarrow> Some 0 | [c] \<Rightarrow> Some 1 | _ \<Rightarrow> None)"
  by (induction cs)
    (simp_all add: only_step word_sless_alt onlyChild_loop_1 del: onlyChildSelector_loop.simps(2)
      split: list.splits)

lemma position_None: "position x xs = None \<longleftrightarrow> x \<notin> set xs"
  by (induction xs) auto

lemma position_range: "position x xs = Some k \<Longrightarrow> 1 \<le> k \<and> k \<le> length xs"
  by (induction xs arbitrary: k) (auto split: if_splits)

lemma nth_step:
  "nthChildSelector_loop last' ofType h n (c # cs) i count =
     (if \<not> keeps ofType h n c then nthChildSelector_loop last' ofType h n cs i count
      else if c = n
        then (if \<not> last' then (count + 1, count + 1)
              else nthChildSelector_loop last' ofType h n cs (count + 1) (count + 1))
      else nthChildSelector_loop last' ofType h n cs i (count + 1))"
  by (simp add: keeps_def Let_def)

lemma loop_absent:
  "n \<notin> set cs \<Longrightarrow> fst (nthChildSelector_loop last' ofType h n cs i count) = i"
  by (induction cs arbitrary: i count)
    (simp_all add: nth_step del: nthChildSelector_loop.simps(2))

lemma loop_break:
  "nthChildSelector_loop False ofType h n cs i count =
     (case position n (filter (keeps ofType h n) cs) of
        None \<Rightarrow> (i, count + of_nat (length (filter (keeps ofType h n) cs)))
      | Some k \<Rightarrow> (count + of_nat k, count + of_nat k))"
  by (induction cs arbitrary: i count)
    (simp_all add: nth_step add.assoc del: nthChildSelector_loop.simps(2) split: option.splits)

lemma loop_scan:
  "count_list cs n \<le> 1 \<Longrightarrow>
   nthChildSelector_loop True ofType h n cs i count =
     ((case position n (filter (keeps ofType h n) cs) of None \<Rightarrow> i | Some k \<Rightarrow> count + of_nat k),
      count + of_nat (length (filter (keeps ofType h n) cs)))"
proof (induction cs arbitrary: i count)
  case Nil
  show ?case by simp
next
  case (Cons c cs)
  show ?case
  proof (cases "c = n")
    case True
    with Cons.prems have "n \<notin> set cs" by (auto simp: count_list_0_iff)
    then have none: "position n (filter (keeps ofType h n) cs) = None"
      by (simp add: position_None)
    have le: "count_list cs n \<le> 1" using Cons.prems by (simp split: if_splits)
    show ?thesis
      using True none Cons.IH [OF le]
      by (simp add: nth_step add.assoc del: nthChildSelector_loop.simps(2))
  next
    case False
    with Cons.prems have le: "count_list cs n \<le> 1" by simp
    show ?thesis
      using False Cons.IH [OF le]
      by (simp add: nth_step add.assoc del: nthChildSelector_loop.simps(2) split: option.splits)
  qed
qed

lemma naive_absent:
  "n \<notin> set cs \<Longrightarrow> fst (naive_loop ofType h n cs i count) = i"
  by (induction cs arbitrary: i count) (simp_all add: Let_def)

lemma naive_eq_break:
  "count_list cs n \<le> 1 \<Longrightarrow>
   fst (naive_loop ofType h n cs i count) = fst (nthChildSelector_loop False ofType h n cs i count)"
proof (induction cs arbitrary: i count)
  case Nil
  show ?case by simp
next
  case (Cons c cs)
  show ?case
  proof (cases "c = n")
    case True
    with Cons.prems have "n \<notin> set cs" by (auto simp: count_list_0_iff)
    then have abs: "fst (naive_loop ofType h n cs j k) = j" for j k
      by (rule naive_absent)
    have le: "count_list cs n \<le> 1" using Cons.prems by (simp split: if_splits)
    show ?thesis
      using True abs Cons.IH [OF le] by (simp add: Let_def)
  next
    case False
    with Cons.prems have le: "count_list cs n \<le> 1" by simp
    show ?thesis
      using False Cons.IH [OF le] by (simp add: Let_def)
  qed
qed

lemma nthChildSelector_loop_result:
  assumes once: "count_list cs n \<le> 1"
  shows "fst (nthChildSelector_loop last' ofType h n cs (- 1) 0) =
           (case position n (filter (keeps ofType h n) cs) of
              None \<Rightarrow> - 1 | Some k \<Rightarrow> word_of_nat k)
         \<and> (last' \<longrightarrow> snd (nthChildSelector_loop last' ofType h n cs (- 1) 0) =
               word_of_nat (length (filter (keeps ofType h n) cs)))"
proof (cases last')
  case True
  with loop_scan [OF once, of ofType h "- 1" 0] show ?thesis
    by (simp split: option.splits)
next
  case False
  with loop_break [of ofType h n cs "- 1" 0] show ?thesis
    by (simp split: option.splits)
qed

lemma nameParser_div:
  "nameParser \<lparr>parser_s = ''div'', parser_i = 0\<rparr> =
     ((Some (typeSelector ''div''), None), \<lparr>parser_s = ''div'', parser_i = 3\<rparr>)"
  by (simp add: nameParser_def isLowerASCII_def Let_def)

lemma nameParser_div_foo:
  "nameParser \<lparr>parser_s = ''div[foo'', parser_i = 0\<rparr> =
     ((Some (typeSelector ''div''), None), \<lparr>parser_s = ''div[foo'', parser_i = 3\<rparr>)"
  by (simp add: nameParser_def isLowerASCII_def Let_def)

lemma nameParser_bracket:
  "nameParser \<lparr>parser_s = ''[foo'', parser_i = 0\<rparr> =
     ((None, Some ()), \<lparr>parser_s = ''[foo'', parser_i = 0\<rparr>)"
  by (simp add: nameParser_def isLowerASCII_def Let_def)

section \<open>Go's division on machine integers\<close>

lemma sdiv_mult_self: "l \<noteq> 0 \<Longrightarrow> (l * q) sdiv l = (q::int)"
proof -
  assume l: "l \<noteq> 0"
  have "(l * q) sdiv l = sgn l * sgn q * sgn l * \<bar>q\<bar>"
    using l by (simp add: signed_divide_int_def sgn_mult abs_mult)
  also have "\<dots> = (sgn l * sgn l) * (sgn q * \<bar>q\<bar>)" by (simp add: mult_ac)
  also have "sgn l * sgn l = 1" using l by (simp add: sgn_if)
  also have "sgn q * \<bar>q\<bar> = q" by (simp add: sgn_if)
  finally show ?thesis by simp
qed

lemma smod_zero_iff: "l \<noteq> 0 \<Longrightarrow> (k::int) smod l = 0 \<longleftrightarrow> l dvd k"
  by (auto simp: signed_modulo_int_def sgn_if dvd_eq_mod_eq_0 [symmetric])

lemma sdiv_abs_le: "\<bar>(k::int) sdiv l\<bar> \<le> \<bar>k\<bar>"
proof -
  have "\<bar>k\<bar> div \<bar>l\<bar> \<le> \<bar>k\<bar>"
    by (metis abs_0 abs_ge_zero div_by_0 div_by_1 linorder_not_less
        zabs_less_one_iff zdiv_mono2)
  moreover have "0 \<le> \<bar>k\<bar> div \<bar>l\<bar>"
    by (simp add: div_int_pos_iff)
  ultimately show ?thesis
    by (simp add: signed_divide_int_def abs_mult abs_sgn_eq)
qed

lemma smod_abs_le: "\<bar>(k::int) smod l\<bar> \<le> \<bar>k\<bar>"
proof -
  have "\<bar>k\<bar> mod \<bar>l\<bar> \<le> \<bar>k\<bar>"
    by (simp add: zmod_le_nonneg_dividend)
  moreover have "0 \<le> \<bar>k\<bar> mod \<bar>l\<bar>"
    by (metis abs_not_less_zero abs_of_nonneg mod_by_0 pos_mod_sign
        verit_comp_simplify1(3) zero_less_abs_iff)
  ultimately show ?thesis
    by (simp add: signed_modulo_int_def abs_mult abs_sgn_eq)
qed

lemma sint_word_of_int_small:
  "- (2 ^ 63) \<le> x \<Longrightarrow> x < 2 ^ 63 \<Longrightarrow> sint (word_of_int x :: go_int) = x"
  by (simp add: sint_sbintrunc' signed_take_bit_int_eq_self)

lemma sint_of_nat_small: "i < 2 ^ 63 \<Longrightarrow> sint (word_of_nat i :: go_int) = int i"
proof -
  assume "i < 2 ^ 63"
  then have "int i < 2 ^ 63" by (metis of_nat_less_iff of_nat_numeral of_nat_power)
  then have "sint (word_of_int (int i) :: go_int) = int i"
    by (intro sint_word_of_int_small) simp_all
  then show ?thesis by simp
qed

lemma of_nat_not_minus_one: "i < 2 ^ 63 \<Longrightarrow> (word_of_nat i :: go_int) \<noteq> - 1"
proof
  assume "i < 2 ^ 63" and "(word_of_nat i :: go_int) = - 1"
  then have "int i = sint (- 1 :: go_int)" using sint_of_nat_small [of i] by simp
  then show False by simp
qed

lemma nthRule_reachable:
  assumes i: "i < 2 ^ 63" and pos: "0 < i" and nov: "int i - sint b < 2 ^ 63"
  shows "nthRule a b i \<longleftrightarrow> (\<exists>k\<ge>0. int i = sint a * k + sint b)"
proof -
  define J where "J = int i - sint b"
  define A where "A = sint a"
  have "sint b < 2 ^ 63" using sint_lt [of b] by simp
  with pos have lo: "- (2 ^ 63) < J" by (simp add: J_def)
  have hi: "J < 2 ^ 63" using nov by (simp add: J_def)
  have sj: "sint (word_of_nat i - b :: go_int) = J"
    using lo hi by (simp add: sint_word_diff sint_of_nat_small [OF i] J_def
        signed_take_bit_int_eq_self)
  have absJ: "\<bar>J\<bar> < 2 ^ 63" using lo hi by simp
  show ?thesis
  proof (cases "a = 0")
    case True
    then have "A = 0" by (simp add: A_def)
    have "nthRule a b i \<longleftrightarrow> (word_of_nat i - b :: go_int) = 0"
      using True by (simp add: nthRule_def)
    also have "\<dots> \<longleftrightarrow> sint (word_of_nat i - b :: go_int) = 0"
      by (simp only: signed_eq_0_iff)
    also have "\<dots> \<longleftrightarrow> J = 0"
      by (simp only: sj)
    also have "\<dots> \<longleftrightarrow> (\<exists>k\<ge>0. int i = A * k + sint b)"
      using \<open>A = 0\<close> by (auto simp: J_def)
    finally show ?thesis by (simp add: A_def)
  next
    case False
    then have A: "A \<noteq> 0" by (simp add: A_def signed_eq_0_iff)
    have m: "\<bar>J smod A\<bar> < 2 ^ 63" using smod_abs_le [of J A] absJ by simp
    have d: "\<bar>J sdiv A\<bar> < 2 ^ 63" using sdiv_abs_le [of J A] absJ by simp
    have "go_mod (word_of_nat i - b) a = 0 \<longleftrightarrow> sint (word_of_int (J smod A) :: go_int) = 0"
      by (simp add: go_mod_def sj A_def signed_eq_0_iff)
    also have "sint (word_of_int (J smod A) :: go_int) = J smod A"
      using m by (intro sint_word_of_int_small) simp_all
    finally have gm: "go_mod (word_of_nat i - b) a = 0 \<longleftrightarrow> A dvd J"
      by (simp add: smod_zero_iff [OF A])
    have "0 \<le>s go_div (word_of_nat i - b) a \<longleftrightarrow> 0 \<le> sint (word_of_int (J sdiv A) :: go_int)"
      by (simp add: go_div_def sj A_def word_sle_eq)
    also have "sint (word_of_int (J sdiv A) :: go_int) = J sdiv A"
      using d by (intro sint_word_of_int_small) simp_all
    finally have gd: "0 \<le>s go_div (word_of_nat i - b) a \<longleftrightarrow> 0 \<le> J sdiv A" .
    have "(A dvd J \<and> 0 \<le> J sdiv A) \<longleftrightarrow> (\<exists>k\<ge>0. J = A * k)"
    proof
      assume "A dvd J \<and> 0 \<le> J sdiv A"
      then obtain q where q: "J = A * q" and nn: "0 \<le> J sdiv A" by (auto elim: dvdE)
      from q A have "J sdiv A = q" by (simp add: sdiv_mult_self)
      with nn q show "\<exists>k\<ge>0. J = A * k" by auto
    next
      assume "\<exists>k\<ge>0. J = A * k"
      then obtain k where k: "0 \<le> k" "J = A * k" by auto
      with A show "A dvd J \<and> 0 \<le> J sdiv A" by (simp add: sdiv_mult_self)
    qed
    also have "\<dots> \<longleftrightarrow> (\<exists>k\<ge>0. int i = A * k + sint b)"
      by (auto simp: J_def algebra_simps)
    finally show ?thesis
      using False gm gd by (simp add: nthRule_def Let_def A_def)
  qed
qed

section \<open>The traversal of MatchAll\<close>

lemma MatchAll_loop_those:
  "MatchAll_loop k s h cs acc =
     (case those (map (MatchAll k s h) cs) of
        None \<Rightarrow> None
      | Some rs \<Rightarrow> Some (acc @ concat rs))"
  by (induction cs arbitrary: acc) (auto split: option.splits)

lemma MatchAll_Suc:
  "MatchAll (Suc k) s h n =
     (case those (map (MatchAll k s h) (Child (h n))) of
        None \<Rightarrow> None
      | Some rs \<Rightarrow> Some ((if s h n then [n] else []) @ concat rs))"
  by (simp add: MatchAll_loop_those)

declare MatchAll.simps(2) [simp del]

lemma those_map_Some:
  "(\<And>c. c \<in> set cs \<Longrightarrow> f c = Some (g c)) \<Longrightarrow> those (map f cs) = Some (map g cs)"
  by (induction cs) auto

lemma those_map_SomeD:
  "those (map f cs) = Some rs \<Longrightarrow> rs = map (\<lambda>c. the (f c)) cs \<and> (\<forall>c \<in> set cs. f c \<noteq> None)"
  by (induction cs arbitrary: rs) (auto split: option.splits)

lemma MatchAll_mono_Suc: "MatchAll k s h n = Some r \<Longrightarrow> MatchAll (Suc k) s h n = Some r"
proof (induction k arbitrary: n r)
  case 0
  then show ?case by simp
next
  case (Suc k)
  from Suc.prems [unfolded MatchAll_Suc] obtain rs where
    rs: "those (map (MatchAll k s h) (Child (h n))) = Some rs"
    and r: "r = (if s h n then [n] else []) @ concat rs"
    by (auto split: option.splits)
  from those_map_SomeD [OF rs] have
    eq: "rs = map (\<lambda>c. the (MatchAll k s h c)) (Child (h n))"
    and some: "\<forall>c \<in> set (Child (h n)). MatchAll k s h c \<noteq> None"
    by simp_all
  have "MatchAll (Suc k) s h c = Some (the (MatchAll k s h c))" if "c \<in> set (Child (h n))" for c
    using that some Suc.IH [of c] by auto
  then have "those (map (MatchAll (Suc k) s h) (Child (h n))) = Some rs"
    unfolding eq by (rule those_map_Some)
  with r show ?case by (simp add: MatchAll_Suc del: MatchAll.simps)
qed

lemma MatchAll_mono: "MatchAll k s h n = Some r \<Longrightarrow> k \<le> k' \<Longrightarrow> MatchAll k' s h n = Some r"
proof -
  assume r: "MatchAll k s h n = Some r" and "k \<le> k'"
  from this(2) show ?thesis
    by (induction rule: dec_induct) (auto intro: r MatchAll_mono_Suc)
qed

lemma returns_iff: "returns s h n r \<longleftrightarrow> (\<exists>k. MatchAll k s h n = Some r)"
  unfolding returns_def by (meson MatchAll_mono order_refl)

lemma returns_unique: "returns s h n r \<Longrightarrow> returns s h n r' \<Longrightarrow> r = r'"
proof -
  assume "returns s h n r" and "returns s h n r'"
  then obtain k k' where k: "MatchAll k s h n = Some r" and k': "MatchAll k' s h n = Some r'"
    by (auto simp: returns_iff)
  have "MatchAll (max k k') s h n = Some r"
    by (rule MatchAll_mono [OF k]) simp
  moreover have "MatchAll (max k k') s h n = Some r'"
    by (rule MatchAll_mono [OF k']) simp
  ultimately show ?thesis by simp
qed

lemma common_depth:
  "(\<And>c. c \<in> set cs \<Longrightarrow> returns s h c (g c)) \<Longrightarrow>
   \<exists>k. \<forall>c \<in> set cs. MatchAll k s h c = Some (g c)"
proof (induction cs)
  case Nil
  show ?case by simp
next
  case (Cons c cs)
  then obtain k where k: "\<forall>c \<in> set cs. MatchAll k s h c = Some (g c)"
    by auto
  from Cons.prems [of c] obtain k0 where k0: "MatchAll k0 s h c = Some (g c)"
    by (auto simp: returns_iff)
  have "MatchAll (max k k0) s h x = Some (g x)" if "x \<in> set (c # cs)" for x
    using that k k0 by (auto intro: MatchAll_mono)
  then show ?case by blast
qed

lemma returns_node:
  assumes "\<And>c. c \<in> set (Child (h n)) \<Longrightarrow> returns s h c (g c)"
  shows "returns s h n ((if s h n then [n] else []) @ concat (map g (Child (h n))))"
proof -
  from common_depth [of "Child (h n)" s h g] assms obtain k where
    "\<forall>c \<in> set (Child (h n)). MatchAll k s h c = Some (g c)"
    by blast
  then have "those (map (MatchAll k s h) (Child (h n))) = Some (map g (Child (h n)))"
    by (intro those_map_Some) simp
  then have "MatchAll (Suc k) s h n = Some ((if s h n then [n] else []) @ concat (map g (Child (h n))))"
    by (simp add: MatchAll_Suc del: MatchAll.simps)
  then show ?thesis unfolding returns_iff ..
qed

lemma descendants_unfold:
  "descendants h n = (\<Union>c \<in> set (Child (h n)). insert c (descendants h c))"
proof (intro set_eqI iffI)
  fix d
  assume "d \<in> descendants h n"
  then show "d \<in> (\<Union>c \<in> set (Child (h n)). insert c (descendants h c))"
  proof (induction rule: descendants.induct)
    case (child c)
    then show ?case by auto
  next
    case (below m c)
    then obtain c0 where c0: "c0 \<in> set (Child (h n))" "m = c0 \<or> m \<in> descendants h c0"
      by auto
    with below.hyps(2) have "c \<in> descendants h c0"
      by (auto intro: descendants.intros)
    with c0(1) show ?case by auto
  qed
next
  fix d
  assume "d \<in> (\<Union>c \<in> set (Child (h n)). insert c (descendants h c))"
  then obtain c where c: "c \<in> set (Child (h n))" "d = c \<or> d \<in> descendants h c"
    by auto
  have "d \<in> descendants h n" if "d \<in> descendants h c"
    using that
  proof (induction rule: descendants.induct)
    case (child x)
    with c(1) show ?case by (auto intro: descendants.intros)
  next
    case (below m x)
    then show ?case by (auto intro: descendants.intros)
  qed
  with c show "d \<in> descendants h n" by (auto intro: descendants.child)
qed


lemma finiteTree_child: "finiteTree h n \<Longrightarrow> c \<in> set (Child (h n)) \<Longrightarrow> finiteTree h c"
  by (erule finiteTree.cases) simp

lemma precedes_append: "precedes r m d \<Longrightarrow> precedes (xs @ r @ ys) m d"
proof -
  assume "precedes r m d"
  then obtain as bs cs where "r = as @ m # bs @ d # cs"
    by (auto simp: precedes_def)
  then have "xs @ r @ ys = (xs @ as) @ m # bs @ d # (cs @ ys)" by simp
  then show ?thesis unfolding precedes_def by blast
qed

lemma MatchAll_tree:
  assumes "finiteTree h n"
  shows "\<exists>r. returns s h n r
           \<and> set r = {m \<in> insert n (descendants h n). s h m}
           \<and> (\<forall>m d. m \<in> insert n (descendants h n) \<longrightarrow> d \<in> descendants h m \<longrightarrow>
                 s h m \<longrightarrow> s h d \<longrightarrow> precedes r m d)"
  using assms
proof (induction rule: finiteTree.induct)
  case (node n)
  let ?P = "\<lambda>c r. returns s h c r
           \<and> set r = {m \<in> insert c (descendants h c). s h m}
           \<and> (\<forall>m d. m \<in> insert c (descendants h c) \<longrightarrow> d \<in> descendants h m \<longrightarrow>
                 s h m \<longrightarrow> s h d \<longrightarrow> precedes r m d)"
  from node.IH have "\<forall>c \<in> set (Child (h n)). \<exists>r. ?P c r" by blast
  then obtain g where g: "\<forall>c \<in> set (Child (h n)). ?P c (g c)"
    by (rule bchoice [THEN exE])
  let ?tail = "concat (map g (Child (h n)))"
  let ?r = "(if s h n then [n] else []) @ ?tail"
  have ret: "returns s h n ?r"
    using g by (intro returns_node) simp
  have tail: "set ?tail = {m \<in> descendants h n. s h m}"
    using g by (subst descendants_unfold) auto
  then have mem: "set ?r = {m \<in> insert n (descendants h n). s h m}"
    by auto
  have prec: "precedes ?r m d"
    if m: "m \<in> insert n (descendants h n)" and d: "d \<in> descendants h m"
      and sm: "s h m" and sd: "s h d" for m d
  proof (cases "m \<in> descendants h n")
    case True
    then obtain c where c: "c \<in> set (Child (h n))" "m \<in> insert c (descendants h c)"
      by (subst (asm) descendants_unfold) auto
    with g d sm sd have "precedes (g c) m d" by blast
    moreover from c(1) obtain as bs where "Child (h n) = as @ c # bs"
      by (auto dest: split_list)
    then have "?r = ((if s h n then [n] else []) @ concat (map g as)) @ g c @ concat (map g bs)"
      by simp
    ultimately show ?thesis by (simp only: precedes_append)
  next
    case False
    with m have mn: "m = n" by simp
    with d sd tail have "d \<in> set ?tail" by simp
    then obtain ys zs where "?tail = ys @ d # zs" by (meson split_list)
    with mn sm have "?r = [] @ m # ys @ d # zs" by simp
    then show ?thesis unfolding precedes_def by blast
  qed
  from ret mem prec show ?case by blast
qed

section \<open>Properties\<close>

lemmas store_defs = familyStore_def twiceStore_def element_def emptyStore_def blank_def

text \<open>
  Claim C1, as the code has it. In a tree (\<open>n\<close> is listed once by its parent, whose
  child list has a length that an \<^verbatim>\<open>int\<close> holds), \<open>nthChildSelector a b last ofType\<close>
  matches \<open>n\<close> exactly when \<open>n\<close> is an element node with a parent and the position \<open>i\<close>
  of \<open>n\<close> among the parent's element children (those of the same name when \<open>ofType\<close>;
  mirrored to \<open>count - i + 1\<close> when \<open>last\<close>) satisfies the rule in Go's arithmetic:
  \<open>i - b == 0\<close> when \<open>a == 0\<close>, otherwise \<open>(i - b) % a == 0\<close> and \<open>(i - b) / a >= 0\<close>.
  Where the subtraction \<open>i - b\<close> does not overflow, the rule says that \<open>i\<close> is
  \<open>a * k + b\<close> for some integer \<open>k \<ge> 0\<close>.
\<close>

theorem nthChildSelector_iff:
  assumes once: "listedOnce h n" and fit: "childrenFit h n"
  shows "(nthChildSelector a b last' ofType h n \<longleftrightarrow>
            Type (h n) = ElementNode \<and>
            (\<exists>p i. Parent (h n) = Some p \<and> nthIndex last' ofType h n p = Some i \<and> nthRule a b i))
         \<and> (\<forall>p i. Parent (h n) = Some p \<longrightarrow> nthIndex last' ofType h n p = Some i \<longrightarrow>
               int i - sint b < 2 ^ 63 \<longrightarrow>
               (nthRule a b i \<longleftrightarrow> (\<exists>k\<ge>0. int i = sint a * k + sint b)))"
proof (cases "Parent (h n)")
  case None
  then show ?thesis by (simp add: nthChildSelector_def)
next
  case (Some p)
  let ?sibs = "siblings ofType h n p"
  from once Some have c1: "count_list (Child (h p)) n \<le> 1" by (simp add: listedOnce_def)
  from fit Some have len: "length (Child (h p)) < 2 ^ 63" by (simp add: childrenFit_def)
  have sl: "length ?sibs < 2 ^ 63"
    unfolding siblings_def by (rule le_less_trans [OF length_filter_le len])
  obtain i count where
    loop: "nthChildSelector_loop last' ofType h n (Child (h p)) (- 1) 0 = (i, count)"
    by (cases "nthChildSelector_loop last' ofType h n (Child (h p)) (- 1) 0")
  from nthChildSelector_loop_result [OF c1, of last' ofType h] loop
  have i: "i = (case position n ?sibs of None \<Rightarrow> - 1 | Some k \<Rightarrow> word_of_nat k)"
    and cnt: "last' \<Longrightarrow> count = word_of_nat (length ?sibs)"
    by (simp_all add: siblings_def)
  have range: "1 \<le> m \<and> m < 2 ^ 63" if "nthIndex last' ofType h n p = Some m" for m
  proof -
    from that obtain k where k: "position n ?sibs = Some k"
      and m: "m = (if last' then length ?sibs - k + 1 else k)"
      by (auto simp: nthIndex_def split: option.splits)
    from position_range [OF k] have "1 \<le> k" "k \<le> length ?sibs" by simp_all
    with m sl show ?thesis by (auto split: if_splits)
  qed
  have code: "nthChildSelector a b last' ofType h n \<longleftrightarrow>
      Type (h n) = ElementNode \<and>
      (\<exists>m. nthIndex last' ofType h n p = Some m \<and> nthRule a b m)"
  proof (cases "position n ?sibs")
    case None
    with i have "i = - 1" by simp
    with Some loop None show ?thesis
      by (simp add: nthChildSelector_def nthIndex_def)
  next
    case (Some k)
    from position_range [OF Some] have k: "1 \<le> k" "k \<le> length ?sibs" by simp_all
    with sl have "k < 2 ^ 63" by simp
    then have ne: "(word_of_nat k :: go_int) \<noteq> - 1" by (rule of_nat_not_minus_one)
    from i Some have ik: "i = word_of_nat k" by simp
    define f where "f = (if last' then count - i + 1 else i)"
    define m where "m = (if last' then length ?sibs - k + 1 else k)"
    have "(word_of_nat (length ?sibs) - word_of_nat k + 1 :: go_int)
        = word_of_nat (length ?sibs - k + 1)"
      using k(2) by (simp add: of_nat_diff)
    with ik cnt have fm: "f = word_of_nat m"
      by (simp add: f_def m_def)
    have idx: "nthIndex last' ofType h n p = Some m"
      using Some by (simp add: nthIndex_def m_def)
    have "nthChildSelector a b last' ofType h n \<longleftrightarrow>
        Type (h n) = ElementNode \<and>
        (let j = f - b in if a = 0 then j = 0 else go_mod j a = 0 \<and> 0 \<le>s go_div j a)"
      unfolding f_def using \<open>Parent (h n) = Some p\<close> loop ik ne
      by (simp add: nthChildSelector_def Let_def)
    also have "\<dots> \<longleftrightarrow> Type (h n) = ElementNode \<and> nthRule a b m"
      unfolding fm nthRule_def ..
    finally show ?thesis using idx by simp
  qed
  have gloss: "nthRule a b m \<longleftrightarrow> (\<exists>k\<ge>0. int m = sint a * k + sint b)"
    if "nthIndex last' ofType h n p = Some m" and "int m - sint b < 2 ^ 63" for m
    using range [OF that(1)] that(2) by (intro nthRule_reachable) simp_all
  from code gloss Some show ?thesis by simp
qed



theorem nthChildSelector_iff_witness:
  "listedOnce familyStore 4 \<and> childrenFit familyStore 4
   \<and> nthIndex False False familyStore 4 0 = Some 3
   \<and> nthChildSelector 2 1 False False familyStore 4
   \<and> (3::int) = sint (2::go_int) * 1 + sint (1::go_int)
   \<and> nthIndex True True familyStore 3 0 = Some 3
   \<and> \<not> nthChildSelector 2 0 True True familyStore 3
   \<and> nthChildSelector 0 3 True True familyStore 3"
proof -
  have o4: "listedOnce familyStore 4" and o3: "listedOnce familyStore 3"
    by code_simp+
  have f4: "childrenFit familyStore 4" and f3: "childrenFit familyStore 3"
    by (simp_all add: childrenFit_def store_defs)
  have p4: "Type (familyStore 4) = ElementNode" "Parent (familyStore 4) = Some 0"
    and p3: "Type (familyStore 3) = ElementNode" "Parent (familyStore 3) = Some 0"
    by code_simp+
  have i4: "nthIndex False False familyStore 4 0 = Some 3"
    and i3: "nthIndex True True familyStore 3 0 = Some 3"
    by code_simp+
  have r: "nthRule 2 1 3" "\<not> nthRule 2 0 3" "nthRule 0 3 3"
    by code_simp+
  have k: "(3::int) = sint (2::go_int) * 1 + sint (1::go_int)"
    by simp
  have a: "nthChildSelector 2 1 False False familyStore 4"
    using nthChildSelector_iff [OF o4 f4, of 2 1 False False, THEN conjunct1] p4 i4 r(1)
    by blast
  have b: "\<not> nthChildSelector 2 0 True True familyStore 3"
    using nthChildSelector_iff [OF o3 f3, of 2 0 True True, THEN conjunct1] p3 i3 r(2)
    by auto
  have c: "nthChildSelector 0 3 True True familyStore 3"
    using nthChildSelector_iff [OF o3 f3, of 0 3 True True, THEN conjunct1] p3 i3 r(3)
    by blast
  from o4 f4 i4 a k i3 b c show ?thesis by (intro conjI)
qed

text \<open>
  Claim C1 as stated holds the rule equivalent to \<open>i = a * k + b\<close> for some \<open>k \<ge> 0\<close>
  for all integers. With \<open>a = 1\<close> and \<open>b = -(2^63 - 1)\<close> the first child is at
  \<open>i = 1 = a * 2^63 + b\<close>, but \<open>i - b\<close> wraps around to \<open>-2^63\<close>, the quotient is
  negative and the selector does not match.
\<close>

theorem nthChildSelector_overflow_counterexample:
  "listedOnce familyStore 1 \<and> childrenFit familyStore 1
   \<and> Type (familyStore 1) = ElementNode \<and> Parent (familyStore 1) = Some 0
   \<and> nthIndex False False familyStore 1 0 = Some 1
   \<and> \<not> nthChildSelector 1 (- 9223372036854775807) False False familyStore 1
   \<and> (0::int) \<le> 9223372036854775808
   \<and> int 1 = sint (1::go_int) * 9223372036854775808 + sint (- 9223372036854775807 :: go_int)"
proof -
  have a: "childrenFit familyStore 1"
    by (simp add: childrenFit_def store_defs)
  have b: "listedOnce familyStore 1" "Type (familyStore 1) = ElementNode"
    "Parent (familyStore 1) = Some 0" "nthIndex False False familyStore 1 0 = Some 1"
    "\<not> nthChildSelector 1 (- 9223372036854775807) False False familyStore 1"
    by code_simp+
  have c: "(0::int) \<le> 9223372036854775808"
    "int 1 = sint (1::go_int) * 9223372036854775808 + sint (- 9223372036854775807 :: go_int)"
    by simp_all
  from a b c show ?thesis by (intro conjI)
qed


text \<open>
  Claim C7. \<open>onlyChildSelector ofType\<close> matches \<open>n\<close> exactly when \<open>n\<close> is an element node
  with a parent that has exactly one element child (of the name of \<open>n\<close>, when \<open>ofType\<close>
  is set). Children that are no elements, such as text and comment nodes, are not
  counted.
\<close>

theorem onlyChildSelector_iff:
  "onlyChildSelector ofType h n \<longleftrightarrow>
     Type (h n) = ElementNode \<and>
     (\<exists>p. Parent (h n) = Some p \<and> length (siblings ofType h n p) = 1)"
proof (cases "Parent (h n)")
  case None
  then show ?thesis by (simp add: onlyChildSelector_def)
next
  case (Some p)
  have "(case filter (keeps ofType h n) (Child (h p)) of [] \<Rightarrow> False | [c] \<Rightarrow> True | _ \<Rightarrow> False)
      \<longleftrightarrow> length (filter (keeps ofType h n) (Child (h p))) = 1"
    by (simp split: list.splits)
  with Some show ?thesis
    by (simp add: onlyChildSelector_def onlyChild_loop_0 siblings_def split: list.splits)
qed

theorem onlyChildSelector_iff_witness:
  "siblings False familyStore 20 21 = [20]
   \<and> onlyChildSelector False familyStore 20
   \<and> siblings False familyStore 4 0 = [1, 3, 4, 5, 7]
   \<and> \<not> onlyChildSelector False familyStore 4
   \<and> siblings True familyStore 4 0 = [4]
   \<and> onlyChildSelector True familyStore 4
   \<and> \<not> onlyChildSelector True familyStore 21"
proof -
  have a: "siblings False familyStore 20 21 = [20]" "siblings False familyStore 4 0 = [1, 3, 4, 5, 7]"
    "siblings True familyStore 4 0 = [4]"
    by code_simp+
  have p: "Type (familyStore 20) = ElementNode" "Parent (familyStore 20) = Some 21"
    "Type (familyStore 4) = ElementNode" "Parent (familyStore 4) = Some 0"
    "Parent (familyStore 21) = None"
    by code_simp+
  from a p onlyChildSelector_iff [of False familyStore 20]
    onlyChildSelector_iff [of False familyStore 4]
    onlyChildSelector_iff [of True familyStore 4]
    onlyChildSelector_iff [of True familyStore 21]
  show ?thesis by simp
qed

text \<open>
  Claim C9. An element node with a parent that does not list it among its children is
  matched by no \<open>nthChildSelector a b last ofType\<close>: the loop leaves \<open>i\<close> at \<open>-1\<close> and
  the selector returns false.
\<close>

theorem nthChildSelector_unlisted:
  assumes "Type (h n) = ElementNode" and "Parent (h n) = Some p" and "n \<notin> set (Child (h p))"
  shows "\<not> nthChildSelector a b last' ofType h n"
proof -
  obtain i count where
    loop: "nthChildSelector_loop last' ofType h n (Child (h p)) (- 1) 0 = (i, count)"
    by (cases "nthChildSelector_loop last' ofType h n (Child (h p)) (- 1) 0")
  have "fst (nthChildSelector_loop last' ofType h n (Child (h p)) (- 1) 0) = - 1"
    using assms(3) by (rule loop_absent)
  with loop have "i = - 1" by simp
  with assms(1,2) loop show ?thesis
    by (simp add: nthChildSelector_def)
qed

theorem nthChildSelector_unlisted_witness:
  "Type (familyStore 10) = ElementNode \<and> Parent (familyStore 10) = Some 0
   \<and> 10 \<notin> set (Child (familyStore 0))
   \<and> \<not> nthChildSelector 0 1 False False familyStore 10
   \<and> \<not> nthChildSelector 1 0 True True familyStore 10"
proof -
  have a: "Type (familyStore 10) = ElementNode" and b: "Parent (familyStore 10) = Some 0"
    and c: "10 \<notin> set (Child (familyStore 0))"
    by code_simp+
  from a b c nthChildSelector_unlisted [OF a b c, of 0 1 False False]
    nthChildSelector_unlisted [OF a b c, of 1 0 True True]
  show ?thesis by simp
qed

text \<open>
  Claim C10, as the code has it. For a node listed at most once by its parent, as
  every node of a tree is, \<open>nthChildSelector a b False ofType\<close>, which leaves the loop
  at the node, returns what the naive variant returns, which scans all the children.
\<close>

theorem nthChildSelector_naive_eq:
  assumes "listedOnce h n"
  shows "nthChildSelector a b False ofType h n = nthChildSelector_naive a b ofType h n"
proof (cases "Parent (h n)")
  case None
  then show ?thesis by (simp add: nthChildSelector_def nthChildSelector_naive_def)
next
  case (Some p)
  with assms have "count_list (Child (h p)) n \<le> 1" by (simp add: listedOnce_def)
  then have eq: "fst (naive_loop ofType h n (Child (h p)) (- 1) 0)
      = fst (nthChildSelector_loop False ofType h n (Child (h p)) (- 1) 0)"
    by (rule naive_eq_break)
  obtain i count where
    loop: "nthChildSelector_loop False ofType h n (Child (h p)) (- 1) 0 = (i, count)"
    by (cases "nthChildSelector_loop False ofType h n (Child (h p)) (- 1) 0")
  obtain i' count' where
    naive: "naive_loop ofType h n (Child (h p)) (- 1) 0 = (i', count')"
    by (cases "naive_loop ofType h n (Child (h p)) (- 1) 0")
  from eq loop naive have "i' = i" by simp
  with Some loop naive show ?thesis
    by (simp add: nthChildSelector_def nthChildSelector_naive_def)
qed

theorem nthChildSelector_naive_eq_witness:
  "listedOnce familyStore 4
   \<and> nthChildSelector 2 1 False False familyStore 4
   \<and> nthChildSelector_naive 2 1 False familyStore 4
   \<and> \<not> nthChildSelector_naive 0 2 True familyStore 4"
proof -
  have a: "listedOnce familyStore 4" by code_simp
  have b: "nthChildSelector_naive 2 1 False familyStore 4"
    "\<not> nthChildSelector_naive 0 2 True familyStore 4"
    by code_simp+
  from a b nthChildSelector_naive_eq [OF a, of 2 1 False]
  show ?thesis by simp
qed

text \<open>
  Claim C10 as stated is about every node. Not the count alone sets the two loops
  apart: the naive loop writes \<open>i\<close> again at every later listing of the node. Where
  a parent lists the node twice, the code takes the first position and the naive
  variant the second, and with \<open>a = 0\<close> and \<open>b = 1\<close> the code matches and the naive
  variant does not.
\<close>

theorem nthChildSelector_naive_counterexample:
  "Type (twiceStore 1) = ElementNode \<and> Parent (twiceStore 1) = Some 0
   \<and> Child (twiceStore 0) = [1, 1]
   \<and> \<not> listedOnce twiceStore 1
   \<and> nthChildSelector 0 1 False False twiceStore 1
   \<and> \<not> nthChildSelector_naive 0 1 False twiceStore 1"
  by code_simp

text \<open>
  Claim C2, as the code has it. \<open>attributeSelector key f\<close> matches \<open>n\<close> exactly when \<open>n\<close>
  is an element node with at least one attribute whose key is, byte for byte, the
  ASCII-lowercased \<open>key\<close> and whose value satisfies \<open>f\<close>. Only the selector's key is
  folded (once, at construction); the node's key is compared as stored. So the
  comparison is the case-insensitive one for a node whose attribute keys hold no ASCII
  capital letter. A node that is not an element never matches, and any one of several
  attributes sharing the key suffices.
\<close>

theorem attributeSelector_iff:
  "(attributeSelector key f h n \<longleftrightarrow>
      Type (h n) = ElementNode \<and>
      (\<exists>a \<in> set (Attr (h n)). Key a = map lowerASCII key \<and> f (Val a)))
   \<and> ((\<forall>a \<in> set (Attr (h n)). map lowerASCII (Key a) = Key a) \<longrightarrow>
       (attributeSelector key f h n \<longleftrightarrow>
          Type (h n) = ElementNode \<and>
          (\<exists>a \<in> set (Attr (h n)). equalFoldASCII (Key a) key \<and> f (Val a))))"
proof -
  have code: "attributeSelector key f h n \<longleftrightarrow>
      Type (h n) = ElementNode \<and>
      (\<exists>a \<in> set (Attr (h n)). Key a = map lowerASCII key \<and> f (Val a))"
    by (simp add: attributeSelector_def attributeSelector_loop_iff toLowerASCII_map)
  have "(\<exists>a \<in> set (Attr (h n)). Key a = map lowerASCII key \<and> f (Val a))
      \<longleftrightarrow> (\<exists>a \<in> set (Attr (h n)). equalFoldASCII (Key a) key \<and> f (Val a))"
    if "\<forall>a \<in> set (Attr (h n)). map lowerASCII (Key a) = Key a"
    using that by (auto simp: equalFoldASCII_def)
  with code show ?thesis by blast
qed

theorem attributeSelector_iff_witness:
  "map Key (Attr (attrStore 0)) = [''lang'', ''class'', ''class'']
   \<and> attributeSelector ''CLASS'' ((=) ''d'') attrStore 0
   \<and> \<not> attributeSelector ''CLASS'' ((=) ''e'') attrStore 0
   \<and> \<not> attributeSelector ''lang'' ((=) ''en'') attrStore 3"
proof -
  have keys: "map Key (Attr (attrStore 0)) = [''lang'', ''class'', ''class'']"
    by code_simp
  have d: "Type (attrStore 0) = ElementNode \<and>
      (\<exists>a \<in> set (Attr (attrStore 0)). Key a = map lowerASCII ''CLASS'' \<and> ''d'' = Val a)"
    by code_simp
  have e: "\<not> (\<exists>a \<in> set (Attr (attrStore 0)). Key a = map lowerASCII ''CLASS'' \<and> ''e'' = Val a)"
    by code_simp
  have t: "Type (attrStore 3) \<noteq> ElementNode"
    by code_simp
  from keys d e t attributeSelector_iff [of "''CLASS''" "(=) ''d''" attrStore 0]
    attributeSelector_iff [of "''CLASS''" "(=) ''e''" attrStore 0]
    attributeSelector_iff [of "''lang''" "(=) ''en''" attrStore 3]
  show ?thesis by blast
qed

text \<open>
  Claim C2 as stated compares the keys without regard to case. The code does not fold
  the node's key: the selector for \<^verbatim>\<open>id\<close> does not match an element whose attribute is
  stored as \<^verbatim>\<open>ID\<close>, though the two keys are equal up to ASCII case and the value
  satisfies the predicate.
\<close>

theorem attributeSelector_case_counterexample:
  "Type (upperKeyStore 0) = ElementNode
   \<and> Attr (upperKeyStore 0) = [\<lparr>Key = ''ID'', Val = ''x''\<rparr>]
   \<and> equalFoldASCII ''ID'' ''id''
   \<and> \<not> attributeSelector ''id'' ((=) ''x'') upperKeyStore 0"
  by code_simp

text \<open>
  Claim C3, for a non-empty \<open>val\<close>. \<open>attributeIncludesSelector key val\<close> matches \<open>n\<close>
  exactly when \<open>n\<close> is an element node with an attribute whose key is the
  ASCII-lowercased \<open>key\<close> and whose value, split on space, tab, carriage return, line
  feed and form feed, has a field equal to \<open>val\<close>. For a non-empty \<open>val\<close> it makes no
  difference whether the empty fields are kept or dropped. A node all of whose
  attribute values are empty does not match.
\<close>

theorem attributeIncludesSelector_iff:
  assumes "val \<noteq> []"
  shows "(attributeIncludesSelector key val h n \<longleftrightarrow>
            Type (h n) = ElementNode \<and>
            (\<exists>a \<in> set (Attr (h n)). Key a = map lowerASCII key
                \<and> val \<in> set (splitOn separators (Val a))))
         \<and> (attributeIncludesSelector key val h n \<longleftrightarrow>
            Type (h n) = ElementNode \<and>
            (\<exists>a \<in> set (Attr (h n)). Key a = map lowerASCII key
                \<and> val \<in> set (tokens separators (Val a))))
         \<and> ((\<forall>a \<in> set (Attr (h n)). Val a = []) \<longrightarrow>
              \<not> attributeIncludesSelector key val h n)"
proof -
  have split: "attributeIncludesSelector key val h n \<longleftrightarrow>
            Type (h n) = ElementNode \<and>
            (\<exists>a \<in> set (Attr (h n)). Key a = map lowerASCII key
                \<and> val \<in> set (splitOn separators (Val a)))"
    using assms
    by (simp add: attributeIncludesSelector_def attributeSelector_def
        attributeSelector_loop_iff toLowerASCII_map includes_loop_splitOn)
  have tok: "val \<in> set (tokens separators s) \<longleftrightarrow> val \<in> set (splitOn separators s)" for s
    using assms by (auto simp: tokens_def)
  have empty: "\<not> attributeIncludesSelector key val h n"
    if "\<forall>a \<in> set (Attr (h n)). Val a = []"
    using that assms unfolding split by auto
  from split tok empty show ?thesis by simp
qed

theorem attributeIncludesSelector_iff_witness:
  "''b'' \<noteq> [] \<and> tokens separators ''a b c'' = [''a'', ''b'', ''c'']
   \<and> attributeIncludesSelector ''class'' ''b'' attrStore 0
   \<and> \<not> attributeIncludesSelector ''class'' ''ab'' attrStore 0
   \<and> attributeIncludesSelector ''class'' ''d'' attrStore 0"
proof -
  have ne: "''b'' \<noteq> []" "''ab'' \<noteq> []" "''d'' \<noteq> []"
    by simp_all
  have toks: "tokens separators ''a b c'' = [''a'', ''b'', ''c'']"
    by code_simp
  have b: "Type (attrStore 0) = ElementNode \<and>
      (\<exists>a \<in> set (Attr (attrStore 0)). Key a = map lowerASCII ''class''
          \<and> ''b'' \<in> set (tokens separators (Val a)))"
    by code_simp
  have ab: "\<not> (\<exists>a \<in> set (Attr (attrStore 0)). Key a = map lowerASCII ''class''
          \<and> ''ab'' \<in> set (tokens separators (Val a)))"
    by code_simp
  have d: "Type (attrStore 0) = ElementNode \<and>
      (\<exists>a \<in> set (Attr (attrStore 0)). Key a = map lowerASCII ''class''
          \<and> ''d'' \<in> set (tokens separators (Val a)))"
    by code_simp
  from toks b ab d
    attributeIncludesSelector_iff [OF ne(1), of "''class''" attrStore 0]
    attributeIncludesSelector_iff [OF ne(2), of "''class''" attrStore 0]
    attributeIncludesSelector_iff [OF ne(3), of "''class''" attrStore 0]
  show ?thesis by blast
qed

text \<open>
  Claim C3 as stated covers an empty \<open>val\<close>, and there the loop follows neither way
  of splitting. It finds the empty field before a leading separator, which is no token
  of the value; it does not find the empty field after a trailing separator, which is
  a field of the split value.
\<close>

theorem attributeIncludesSelector_empty_counterexample:
  "Attr (leadingStore 0) = [\<lparr>Key = ''class'', Val = '' a''\<rparr>]
   \<and> attributeIncludesSelector ''class'' [] leadingStore 0
   \<and> [] \<notin> set (tokens separators '' a'')
   \<and> Attr (trailingStore 0) = [\<lparr>Key = ''class'', Val = ''a ''\<rparr>]
   \<and> \<not> attributeIncludesSelector ''class'' [] trailingStore 0
   \<and> [] \<in> set (splitOn separators ''a '')"
  by code_simp

text \<open>
  Claim C4. Let the parse method return the selector \<open>compiled\<close> and the error \<open>err\<close>
  and leave the cursor within the selector text. \<open>Compile\<close> returns no error exactly
  when the parse returned none and the cursor is at the end of the text, and it then
  returns \<open>compiled\<close>. When the parse returned no error and bytes are left over, it
  returns the error made of the selector text and the number of these bytes; when the
  parse returned an error, it returns this error. With every error the selector
  returned is nil.
\<close>

theorem Compile_result:
  assumes run: "parseSimpleSelectorSequence \<lparr>parser_s = sel, parser_i = 0\<rparr> = ((compiled, err), p)"
    and lo: "0 \<le> sint (parser_i p)" and hi: "sint (parser_i p) \<le> int (length sel)"
    and len: "length sel < 2 ^ 63"
  shows "(snd (Compile parseSimpleSelectorSequence sel) = None \<longleftrightarrow>
            err = None \<and> sint (parser_i p) = int (length sel))
         \<and> (err = None \<and> sint (parser_i p) = int (length sel) \<longrightarrow>
              Compile parseSimpleSelectorSequence sel = (compiled, None))
         \<and> (err = None \<and> sint (parser_i p) < int (length sel) \<longrightarrow>
              Compile parseSimpleSelectorSequence sel =
                (None, Some (BytesLeftOver sel (word_of_nat (length sel) - parser_i p)))
              \<and> sint (word_of_nat (length sel) - parser_i p :: go_int) =
                  int (length sel) - sint (parser_i p))
         \<and> (\<forall>e. err = Some e \<longrightarrow>
              Compile parseSimpleSelectorSequence sel = (None, Some (ParseError e)))
         \<and> (snd (Compile parseSimpleSelectorSequence sel) \<noteq> None \<longrightarrow>
              fst (Compile parseSimpleSelectorSequence sel) = None)"
proof -
  have sl: "sint (word_of_nat (length sel) :: go_int) = int (length sel)"
    using len by (rule sint_of_nat_small)
  have less: "parser_i p <s word_of_nat (length sel) \<longleftrightarrow> sint (parser_i p) < int (length sel)"
    by (simp add: word_sless_alt sl)
  have "int (length sel) < 2 ^ 63"
    using sl sint_lt [of "word_of_nat (length sel) :: go_int"] by simp
  with lo hi have diff: "sint (word_of_nat (length sel) - parser_i p :: go_int) =
      int (length sel) - sint (parser_i p)"
    by (simp add: sint_word_diff sl signed_take_bit_int_eq_self)
  show ?thesis
  proof (cases err)
    case None
    with run less hi diff show ?thesis
      by (auto simp: Compile_def)
  next
    case (Some e)
    with run show ?thesis
      by (simp add: Compile_def)
  qed
qed

theorem Compile_result_witness:
  "Compile nameParser ''div'' = (Some (typeSelector ''div''), None)
   \<and> Compile nameParser ''div[foo'' = (None, Some (BytesLeftOver ''div[foo'' 4))
   \<and> Compile nameParser ''[foo'' = (None, Some (ParseError ()))"
proof -
  have a: "Compile nameParser ''div'' = (Some (typeSelector ''div''), None)"
    using Compile_result [where parseSimpleSelectorSequence = nameParser, OF nameParser_div]
    by simp
  have b: "Compile nameParser ''div[foo'' = (None, Some (BytesLeftOver ''div[foo'' 4))"
    using Compile_result [where parseSimpleSelectorSequence = nameParser, OF nameParser_div_foo]
    by simp
  have c: "Compile nameParser ''[foo'' = (None, Some (ParseError ()))"
    using Compile_result [where parseSimpleSelectorSequence = nameParser, OF nameParser_bracket]
    by simp
  from a b c show ?thesis by (intro conjI)
qed


text \<open>
  Claim C5. On a finite tree rooted at \<open>n\<close>, \<open>MatchAll\<close> returns, and returns one
  sequence \<open>r\<close> only. It returns on every child too, and \<open>r\<close> is \<open>n\<close> itself when the
  selector matches it, followed by what \<open>MatchAll\<close> returns on the children, in their
  order. So a matched node of the tree is in \<open>r\<close> before each of its matched
  descendants.
\<close>

theorem MatchAll_preorder:
  assumes "finiteTree h n"
  shows "\<exists>r rs. returns s h n r \<and> (\<forall>r'. returns s h n r' \<longrightarrow> r' = r)
           \<and> list_all2 (returns s h) (Child (h n)) rs
           \<and> r = (if s h n then [n] else []) @ concat rs
           \<and> (\<forall>m d. m \<in> insert n (descendants h n) \<longrightarrow> d \<in> descendants h m \<longrightarrow>
                 s h m \<longrightarrow> s h d \<longrightarrow> precedes r m d)"
proof -
  from MatchAll_tree [OF assms, of s] obtain r where
    r: "returns s h n r"
    and prec: "\<forall>m d. m \<in> insert n (descendants h n) \<longrightarrow> d \<in> descendants h m \<longrightarrow>
                 s h m \<longrightarrow> s h d \<longrightarrow> precedes r m d"
    by blast
  have "\<forall>c \<in> set (Child (h n)). \<exists>rc. returns s h c rc"
    using MatchAll_tree [OF finiteTree_child [OF assms], of _ s] by blast
  then obtain g where g: "\<forall>c \<in> set (Child (h n)). returns s h c (g c)"
    by (rule bchoice [THEN exE])
  let ?rs = "map g (Child (h n))"
  have "returns s h n ((if s h n then [n] else []) @ concat ?rs)"
    using g by (intro returns_node) simp
  with r have eq: "r = (if s h n then [n] else []) @ concat ?rs"
    by (rule returns_unique)
  have all2: "list_all2 (returns s h) (Child (h n)) ?rs"
    using g by (simp add: list_all2_map2 list_all2_same)
  have uniq: "\<forall>r'. returns s h n r' \<longrightarrow> r' = r"
    using r by (blast intro: returns_unique)
  from r uniq all2 eq prec show ?thesis by blast
qed



theorem MatchAll_preorder_witness:
  "finiteTree divStore 0
   \<and> MatchAll 3 (typeSelector ''div'') divStore 0 = Some [0, 3, 2]
   \<and> returns (typeSelector ''div'') divStore 0 [0, 3, 2]
   \<and> 3 \<in> descendants divStore 0
   \<and> precedes [0, 3, 2] 0 3"
proof -
  define s where "s = typeSelector ''div''"
  have ch: "Child (divStore 0) = [1, 2]" "Child (divStore 1) = [3]"
    "Child (divStore 2) = []" "Child (divStore 3) = []"
    by code_simp+
  have t3: "finiteTree divStore 3"
  proof (rule finiteTree.node)
    fix c assume "c \<in> set (Child (divStore 3))"
    then show "finiteTree divStore c" by (simp only: ch) simp
  qed
  have t2: "finiteTree divStore 2"
  proof (rule finiteTree.node)
    fix c assume "c \<in> set (Child (divStore 2))"
    then show "finiteTree divStore c" by (simp only: ch) simp
  qed
  have t1: "finiteTree divStore 1"
  proof (rule finiteTree.node)
    fix c assume "c \<in> set (Child (divStore 1))"
    then have "c = 3" by (simp only: ch) simp
    with t3 show "finiteTree divStore c" by simp
  qed
  have t0: "finiteTree divStore 0"
  proof (rule finiteTree.node)
    fix c assume "c \<in> set (Child (divStore 0))"
    then have "c = 1 \<or> c = 2" by (simp only: ch) simp
    with t1 t2 show "finiteTree divStore c" by blast
  qed
  have run: "MatchAll 3 (typeSelector ''div'') divStore 0 = Some [0, 3, 2]"
    by code_simp
  have ret: "returns s divStore 0 [0, 3, 2]"
    unfolding returns_iff s_def by (rule exI [of _ 3]) (rule run)
  have "1 \<in> set (Child (divStore 0))" "3 \<in> set (Child (divStore 1))"
    by (simp_all only: ch) simp_all
  then have d3: "3 \<in> descendants divStore 0"
    by (blast intro: descendants.intros)
  have "typeSelector ''div'' divStore 0" "typeSelector ''div'' divStore 3"
    by code_simp+
  then have sel: "s divStore 0" "s divStore 3"
    by (simp_all only: s_def)
  from MatchAll_preorder [OF t0, of s] obtain r where
    u: "\<forall>r'. returns s divStore 0 r' \<longrightarrow> r' = r"
    and p: "\<forall>m d. m \<in> insert 0 (descendants divStore 0) \<longrightarrow> d \<in> descendants divStore m \<longrightarrow>
          s divStore m \<longrightarrow> s divStore d \<longrightarrow> precedes r m d"
    by (elim exE conjE)
  from u [rule_format, OF ret] have r: "[0, 3, 2] = r" .
  have "0 \<in> insert 0 (descendants divStore 0)" by (rule insertI1)
  from p [rule_format, OF this d3 sel] have "precedes r 0 3" .
  then have prec: "precedes [0, 3, 2] 0 3" by (simp only: r [symmetric])
  from ret have ret': "returns (typeSelector ''div'') divStore 0 [0, 3, 2]"
    by (simp only: s_def)
  from t0 run ret' d3 prec show ?thesis by (intro conjI)
qed


text \<open>
  Claim C6. \<open>attributeDashmatchSelector key val\<close> matches \<open>n\<close> exactly when \<open>n\<close> is an
  element node with an attribute whose key is the ASCII-lowercased \<open>key\<close> (the test of
  \<open>attributeSelector\<close>) and whose value either equals \<open>val\<close>, or is strictly longer than
  \<open>val\<close>, starts with \<open>val\<close> and has \<^verbatim>\<open>-\<close> as the next byte.
\<close>

theorem attributeDashmatchSelector_iff:
  "attributeDashmatchSelector key val h n \<longleftrightarrow>
     Type (h n) = ElementNode \<and>
     (\<exists>a \<in> set (Attr (h n)). Key a = toLowerASCII key \<and>
        (Val a = val \<or>
         (length val < length (Val a) \<and> take (length val) (Val a) = val
          \<and> Val a ! (length val) = CHR ''-'')))"
proof -
  have "dashmatch val s \<longleftrightarrow>
      s = val \<or> (length val < length s \<and> take (length val) s = val \<and> s ! (length val) = CHR ''-'')"
    for s
    by (auto simp: dashmatch_def)
  then show ?thesis
    by (simp add: attributeDashmatchSelector_def attributeSelector_def attributeSelector_loop_iff)
qed

theorem attributeDashmatchSelector_iff_witness:
  "attributeDashmatchSelector ''lang'' ''en'' attrStore 0
   \<and> attributeDashmatchSelector ''lang'' ''en'' attrStore 1
   \<and> \<not> attributeDashmatchSelector ''lang'' ''en'' attrStore 2
   \<and> \<not> attributeDashmatchSelector ''lang'' ''en'' attrStore 3"
proof -
  have r0: "Type (attrStore 0) = ElementNode \<and>
     (\<exists>a \<in> set (Attr (attrStore 0)). Key a = toLowerASCII ''lang'' \<and>
        (Val a = ''en'' \<or>
         (length ''en'' < length (Val a) \<and> take (length ''en'') (Val a) = ''en''
          \<and> Val a ! (length ''en'') = CHR ''-'')))"
    by code_simp
  have r1: "Type (attrStore 1) = ElementNode \<and>
     (\<exists>a \<in> set (Attr (attrStore 1)). Key a = toLowerASCII ''lang'' \<and>
        (Val a = ''en'' \<or>
         (length ''en'' < length (Val a) \<and> take (length ''en'') (Val a) = ''en''
          \<and> Val a ! (length ''en'') = CHR ''-'')))"
    by code_simp
  have r2: "\<not> (\<exists>a \<in> set (Attr (attrStore 2)). Key a = toLowerASCII ''lang'' \<and>
        (Val a = ''en'' \<or>
         (length ''en'' < length (Val a) \<and> take (length ''en'') (Val a) = ''en''
          \<and> Val a ! (length ''en'') = CHR ''-'')))"
    by code_simp
  have r3: "Type (attrStore 3) \<noteq> ElementNode"
    by code_simp
  from r0 r1 r2 r3
    attributeDashmatchSelector_iff [of "''lang''" "''en''" attrStore 0]
    attributeDashmatchSelector_iff [of "''lang''" "''en''" attrStore 1]
    attributeDashmatchSelector_iff [of "''lang''" "''en''" attrStore 2]
    attributeDashmatchSelector_iff [of "''lang''" "''en''" attrStore 3]
  show ?thesis by blast
qed

text \<open>
  Claim C8. For every selector \<open>m\<close>, every store and every node \<open>n\<close> of it (an element
  or not, with a parent or without): \<open>negatedSelector m\<close> matches \<open>n\<close> exactly when \<open>m\<close>
  does not match \<open>n\<close>.
\<close>

theorem negatedSelector_complement:
  "negatedSelector m h n = (\<not> m h n)"
  by (simp add: negatedSelector_def)

end
